theory Spec2Isabelle
  imports Main "HOL-Library.Multiset"
begin

section \<open>Data model\<close>

text \<open>
  The engine of \<^verbatim>\<open>eval.py\<close> works on the board and move objects of the chess
  library it imports. Squares are the integers 0..63, piece types the six kinds of
  chessmen, a colour is a boolean (\<^verbatim>\<open>chess.WHITE\<close> is \<^verbatim>\<open>True\<close>).
\<close>

type_synonym square = nat

datatype piece_type = PAWN | KNIGHT | BISHOP | ROOK | QUEEN | KING

record piece =
  piece_type :: piece_type
  color :: bool

text \<open>A move; \<open>promotion\<close> is \<^verbatim>\<open>None\<close> unless a pawn is promoted.\<close>

record move =
  from_square :: square
  to_square :: square
  promotion :: "piece_type option"

text \<open>
  The chess rules themselves are not part of the repository: a board is used only
  through the methods below. They are the parameter of the whole development; \<open>'b\<close>
  is the state of a board object (position and move stack), \<open>'f\<close> the encoding
  produced by \<^verbatim>\<open>board.fen()\<close> and read back by \<^verbatim>\<open>chess.Board(fen)\<close>.
  \<open>push\<close> and \<open>pop\<close> mutate the board in the source; here they return the new state.
\<close>

record ('b, 'f) board_api =
  piece_map :: "'b \<Rightarrow> (square \<times> piece) list"
  legal_moves :: "'b \<Rightarrow> move list"
  is_capture :: "'b \<Rightarrow> move \<Rightarrow> bool"
  is_game_over :: "'b \<Rightarrow> bool"
  push :: "'b \<Rightarrow> move \<Rightarrow> 'b"
  pop :: "'b \<Rightarrow> 'b"
  fen :: "'b \<Rightarrow> 'f"
  Board :: "'f \<Rightarrow> 'b"

section \<open>Constants\<close>

definition INFINITY :: int where
  "INFINITY = 100000"

definition material_weights :: "piece_type \<rightharpoonup> int" where
  "material_weights =
     [PAWN \<mapsto> 100, KNIGHT \<mapsto> 320, BISHOP \<mapsto> 330, ROOK \<mapsto> 500, QUEEN \<mapsto> 900]"

section \<open>Evaluation\<close>

text \<open>\<^verbatim>\<open>material_weights.get(piece.piece_type, 0)\<close>\<close>

definition weight_of :: "piece_type \<Rightarrow> int" where
  "weight_of t = (case material_weights t of None \<Rightarrow> 0 | Some v \<Rightarrow> v)"

text \<open>One round of the loop of \<^verbatim>\<open>evaluate_board\<close>, on the accumulator \<open>material\<close>.\<close>

definition evaluate_step :: "piece \<Rightarrow> int \<Rightarrow> int" where
  "evaluate_step p material =
     (let v = weight_of (piece_type p)
      in if color p then material + v else material - v)"

definition evaluate_board :: "('b, 'f) board_api \<Rightarrow> 'b \<Rightarrow> int" where
  "evaluate_board A board = fold evaluate_step (map snd (piece_map A board)) 0"

section \<open>Move ordering\<close>

definition move_score :: "('b, 'f) board_api \<Rightarrow> 'b \<Rightarrow> move \<Rightarrow> int" where
  "move_score A board m =
     (if promotion m \<noteq> None then the (material_weights QUEEN)
      else if is_capture A board m then 1
      else 0)"

text \<open>
  \<^verbatim>\<open>moves.sort(key=move_score, reverse=True)\<close>: a stable sort, descending in the
  key, which keeps the original order of moves with equal keys. \<open>sort_key\<close> is stable
  and ascending, so the key is negated.
\<close>

definition order_moves :: "('b, 'f) board_api \<Rightarrow> 'b \<Rightarrow> move list" where
  "order_moves A board = sort_key (\<lambda>m. - move_score A board m) (legal_moves A board)"

section \<open>Search\<close>

text \<open>
  \<open>negamax\<close> recurses on \<open>depth - 1\<close> until \<open>depth = 0\<close> or the game is over, so with a
  negative depth nothing bounds the recursion but the game itself. The first argument
  is the number of nested calls still available; \<open>None\<close> means that they were used up
  before the search returned. A result is the state of the board together with the
  score. \<open>negamax_loop\<close> is the \<^verbatim>\<open>for\<close> loop over the ordered moves, with the loop
  variables \<open>max_eval\<close> and \<open>alpha\<close>.
\<close>

function negamax ::
    "nat \<Rightarrow> ('b, 'f) board_api \<Rightarrow> 'b \<Rightarrow> int \<Rightarrow> int \<Rightarrow> int \<Rightarrow> int \<Rightarrow> ('b \<times> int) option"
  and negamax_loop ::
    "nat \<Rightarrow> ('b, 'f) board_api \<Rightarrow> 'b \<Rightarrow> int \<Rightarrow> move list \<Rightarrow> int \<Rightarrow> int \<Rightarrow> int \<Rightarrow> int
       \<Rightarrow> ('b \<times> int) option"
where
  "negamax 0 A board depth alpha beta colour = None"
| "negamax (Suc fuel) A board depth alpha beta colour =
     (if depth = 0 \<or> is_game_over A board
      then Some (board, colour * evaluate_board A board)
      else negamax_loop fuel A board depth (order_moves A board) (- INFINITY) alpha beta colour)"
| "negamax_loop fuel A board depth [] max_eval alpha beta colour = Some (board, max_eval)"
| "negamax_loop fuel A board depth (m # rest) max_eval alpha beta colour =
     (case negamax fuel A (push A board m) (depth - 1) (- beta) (- alpha) (- colour) of
        None \<Rightarrow> None
      | Some (pushed, r) \<Rightarrow>
          (let eval = - r;
               board' = pop A pushed;
               max_eval' = (if eval > max_eval then eval else max_eval);
               alpha' = (if max_eval' > alpha then max_eval' else alpha)
           in if alpha' \<ge> beta then Some (board', max_eval')
              else negamax_loop fuel A board' depth rest max_eval' alpha' beta colour))"
  by pat_completeness auto
termination
  by (relation "measures
        [\<lambda>x. case x of Inl (fuel, _) \<Rightarrow> 2 * fuel | Inr (fuel, _) \<Rightarrow> 2 * fuel + 1,
         \<lambda>x. case x of Inl _ \<Rightarrow> 0 | Inr (_, _, _, _, ms, _) \<Rightarrow> length ms]")
     auto

text \<open>
  The task of one worker: a private board is rebuilt from the encoding, the root move is
  played on it and the reply is searched.
\<close>

definition evaluate_move ::
    "nat \<Rightarrow> ('b, 'f) board_api \<Rightarrow> move \<times> 'f \<times> int \<Rightarrow> (move \<times> int) option" where
  "evaluate_move fuel A args =
     (case args of (m, board_fen, depth) \<Rightarrow>
        (let board = Board A board_fen;
             board = push A board m
         in case negamax fuel A board (depth - 1) (- INFINITY) INFINITY (- 1) of
              None \<Rightarrow> None
            | Some (_, r) \<Rightarrow> Some (m, - r)))"

text \<open>The scan of the results for the first strictly greater score.\<close>

fun best_of :: "(move \<times> int) list \<Rightarrow> move option \<Rightarrow> int \<Rightarrow> move option" where
  "best_of [] best_move max_eval = best_move"
| "best_of ((m, eval) # results) best_move max_eval =
     (if eval > max_eval then best_of results (Some m) eval
      else best_of results best_move max_eval)"

text \<open>
  \<^verbatim>\<open>pool.map\<close> returns the results in the order of its arguments, and a worker that
  does not return leaves no result at all (\<open>those\<close>). The board is only read, through
  \<open>fen\<close> and \<open>order_moves\<close>; it is returned with the chosen move.
\<close>

definition choose_best_move ::
    "nat \<Rightarrow> ('b, 'f) board_api \<Rightarrow> 'b \<Rightarrow> int \<Rightarrow> ('b \<times> move option) option" where
  "choose_best_move fuel A board max_depth =
     (let board_fen = fen A board;
          moves = order_moves A board;
          args = map (\<lambda>m. (m, board_fen, max_depth)) moves
      in case those (map (evaluate_move fuel A) args) of
           None \<Rightarrow> None
         | Some results \<Rightarrow> Some (board, best_of results None (- INFINITY)))"

section \<open>A small game for concrete runs\<close>

text \<open>
  An implementation of the board interface on which the engine can be run by
  evaluation: two kings, a white pawn on a7, a black rook on b8 and a black pawn on e2.
  A board is the list of the moves played so far, the last one first. The moves come
  from a fixed catalogue; one of them is playable when the side to move has a piece on
  its origin and the target is empty or holds an enemy piece other than the king. The
  game stops after three moves.
\<close>

definition mk_piece :: "piece_type \<Rightarrow> bool \<Rightarrow> piece" where
  "mk_piece t c = \<lparr>piece_type = t, color = c\<rparr>"

definition mk_move :: "square \<Rightarrow> square \<Rightarrow> piece_type option \<Rightarrow> move" where
  "mk_move f t p = \<lparr>from_square = f, to_square = t, promotion = p\<rparr>"

definition toy_start :: "(square \<times> piece) list" where
  "toy_start =
     [(4, mk_piece KING True), (48, mk_piece PAWN True),
      (60, mk_piece KING False), (57, mk_piece ROOK False), (12, mk_piece PAWN False)]"

definition toy_catalogue :: "move list" where
  "toy_catalogue =
     [mk_move 4 5 None, mk_move 4 12 None,
      mk_move 48 56 (Some QUEEN), mk_move 48 57 (Some QUEEN),
      mk_move 60 52 None, mk_move 57 56 None, mk_move 57 1 None, mk_move 12 4 None]"

definition apply_move :: "(square \<times> piece) list \<Rightarrow> move \<Rightarrow> (square \<times> piece) list" where
  "apply_move pm m =
     (case map_of pm (from_square m) of
        None \<Rightarrow> pm
      | Some p \<Rightarrow>
          (to_square m, case promotion m of None \<Rightarrow> p | Some t \<Rightarrow> p\<lparr>piece_type := t\<rparr>)
          # filter (\<lambda>(sq, _). sq \<noteq> from_square m \<and> sq \<noteq> to_square m) pm)"

fun toy_pieces :: "move list \<Rightarrow> (square \<times> piece) list" where
  "toy_pieces [] = toy_start"
| "toy_pieces (m # h) = apply_move (toy_pieces h) m"

definition toy_playable :: "move list \<Rightarrow> move \<Rightarrow> bool" where
  "toy_playable h m =
     (case map_of (toy_pieces h) (from_square m) of
        None \<Rightarrow> False
      | Some p \<Rightarrow>
          color p = even (length h) \<and>
          (case map_of (toy_pieces h) (to_square m) of
             None \<Rightarrow> True
           | Some q \<Rightarrow> color q \<noteq> color p \<and> piece_type q \<noteq> KING))"

definition toy_legal_moves :: "move list \<Rightarrow> move list" where
  "toy_legal_moves h = (if length h \<ge> 3 then [] else filter (toy_playable h) toy_catalogue)"

definition toy_is_capture :: "move list \<Rightarrow> move \<Rightarrow> bool" where
  "toy_is_capture h m = (map_of (toy_pieces h) (to_square m) \<noteq> None)"

definition toy :: "(move list, move list) board_api" where
  "toy =
     \<lparr>piece_map = toy_pieces,
      legal_moves = toy_legal_moves,
      is_capture = toy_is_capture,
      is_game_over = (\<lambda>h. toy_legal_moves h = []),
      push = (\<lambda>h m. m # h),
      pop = tl,
      fen = (\<lambda>h. h),
      Board = (\<lambda>h. h)\<rparr>"

section \<open>Reference notions of the specification\<close>

text \<open>
  The unpruned search the specification compares \<open>negamax\<close> with: the same recursion on
  the same ordered moves and the same leaf function, without \<open>alpha\<close>, \<open>beta\<close> and the
  cutoff. It works on the position after each move and needs no undo.
\<close>

fun full_width_minimax :: "('b, 'f) board_api \<Rightarrow> 'b \<Rightarrow> nat \<Rightarrow> int \<Rightarrow> int" where
  "full_width_minimax A board 0 colour = colour * evaluate_board A board"
| "full_width_minimax A board (Suc d) colour =
     (if is_game_over A board then colour * evaluate_board A board
      else fold (\<lambda>m best. max best (- full_width_minimax A (push A board m) d (- colour)))
             (order_moves A board) (- INFINITY))"

text \<open>
  The colour-mirrored counterpart of a piece map: every square is reflected to the other
  side of the board (rank \<open>r\<close> becomes rank \<open>7 - r\<close>, the file stays) and every piece
  changes colour.
\<close>

definition square_mirror :: "square \<Rightarrow> square" where
  "square_mirror sq = 8 * (7 - sq div 8) + sq mod 8"

definition mirror_piece_map :: "(square \<times> piece) list \<Rightarrow> (square \<times> piece) list" where
  "mirror_piece_map pm = map (\<lambda>(sq, p). (square_mirror sq, p\<lparr>color := \<not> color p\<rparr>)) pm"

text \<open>The contribution of one piece to the material balance, as the specification words it.\<close>

definition signed_weight :: "piece \<Rightarrow> int" where
  "signed_weight p = (if color p then weight_of (piece_type p) else - weight_of (piece_type p))"

text \<open>
  What a search with window \<open>(a, b)\<close> may return (\<open>r\<close>) for a position of true value \<open>v\<close>:
  the value itself inside the window, a bound of it outside.
\<close>

definition fail_soft :: "int \<Rightarrow> int \<Rightarrow> int \<Rightarrow> int \<Rightarrow> bool" where
  "fail_soft a b v r \<longleftrightarrow> (r \<le> a \<longrightarrow> v \<le> r) \<and> (a < r \<and> r < b \<longrightarrow> v = r) \<and> (b \<le> r \<longrightarrow> r \<le> v)"

text \<open>The same game seen through a mirror: every piece map is colour-mirrored.\<close>

definition toy_mirrored :: "(move list, move list) board_api" where
  "toy_mirrored = toy\<lparr>piece_map := \<lambda>h. mirror_piece_map (toy_pieces h)\<rparr>"

section \<open>Depth 0\<close>

text \<open>
  C6. At depth 0 the search returns \<open>colour * evaluate_board\<close> of the position, whatever
  \<open>alpha\<close>, \<open>beta\<close> and \<open>colour\<close> are, and leaves the board as it is. One call is all it
  takes.
\<close>

theorem negamax_depth_0:
  "negamax (Suc fuel) A pos 0 alpha beta c = Some (pos, c * evaluate_board A pos)"
  by simp

section \<open>The evaluator\<close>

lemma fold_evaluate_step:
  "fold evaluate_step ps acc = acc + sum_list (map signed_weight ps)"
  by (induction ps arbitrary: acc) (auto simp: evaluate_step_def signed_weight_def Let_def)

lemma evaluate_board_sum:
  "evaluate_board A board = sum_list (map signed_weight (map snd (piece_map A board)))"
  by (simp add: evaluate_board_def fold_evaluate_step)

lemma weight_of_values:
  "weight_of PAWN = 100" "weight_of KNIGHT = 320" "weight_of BISHOP = 330"
  "weight_of ROOK = 500" "weight_of QUEEN = 900" "weight_of KING = 0"
  by (simp_all add: weight_of_def material_weights_def)

lemma weight_of_range: "0 \<le> weight_of t \<and> weight_of t \<le> 900"
  by (cases t) (simp_all add: weight_of_values)

lemma signed_weight_range: "\<bar>signed_weight p\<bar> \<le> 900"
  using weight_of_range [of "piece_type p"] by (simp add: signed_weight_def)

lemma sum_list_signed_weight: "\<bar>sum_list (map signed_weight ps)\<bar> \<le> 900 * int (length ps)"
proof (induction ps)
  case Nil
  show ?case by simp
next
  case (Cons p ps)
  with signed_weight_range [of p] show ?case by simp
qed

lemma evaluate_board_bound:
  assumes "length (piece_map A board) \<le> 64"
  shows "\<bar>evaluate_board A board\<bar> \<le> 57600"
proof -
  have "\<bar>evaluate_board A board\<bar> \<le> 900 * int (length (piece_map A board))"
    using sum_list_signed_weight [of "map snd (piece_map A board)"]
    by (simp add: evaluate_board_sum)
  with assms show ?thesis by linarith
qed

lemma signed_weight_mirror: "signed_weight (p\<lparr>color := \<not> color p\<rparr>) = - signed_weight p"
  by (simp add: signed_weight_def)

lemma sum_mirror:
  "sum_list (map (signed_weight \<circ> snd) (mirror_piece_map pm))
     = - sum_list (map (signed_weight \<circ> snd) pm)"
  by (induction pm) (auto simp: mirror_piece_map_def signed_weight_mirror)

lemma sum_list_mset_cong:
  fixes f :: "'a \<Rightarrow> int"
  assumes "mset xs = mset ys"
  shows "sum_list (map f xs) = sum_list (map f ys)"
proof -
  have "sum_mset (image_mset f (mset xs)) = sum_mset (image_mset f (mset ys))"
    using assms by simp
  then show ?thesis by (simp only: flip: mset_map sum_mset_sum_list)
qed

text \<open>
  C8. The evaluator is the sum, over the pieces of the board, of the weight of each white
  piece and of minus the weight of each black piece, with the weights of the table and 0
  for a king. Hence a position \<open>P'\<close> whose pieces are those of the colour-mirrored \<open>P\<close>
  (in any order of the dictionary) evaluates to the opposite of \<open>P\<close>.
\<close>

theorem evaluate_board_material_symmetry:
  "(mset (piece_map A' P') = mset (mirror_piece_map (piece_map A P))
      \<longrightarrow> evaluate_board A P = - evaluate_board A' P')
   \<and> evaluate_board A P = (\<Sum>p\<leftarrow>map snd (piece_map A P).
        if color p then weight_of (piece_type p) else - weight_of (piece_type p))
   \<and> weight_of PAWN = 100 \<and> weight_of KNIGHT = 320 \<and> weight_of BISHOP = 330
   \<and> weight_of ROOK = 500 \<and> weight_of QUEEN = 900 \<and> weight_of KING = 0"
proof -
  have "evaluate_board A P = - evaluate_board A' P'"
    if h: "mset (piece_map A' P') = mset (mirror_piece_map (piece_map A P))"
  proof -
    have "sum_list (map signed_weight (map snd (piece_map A' P')))
        = sum_list (map signed_weight (map snd (mirror_piece_map (piece_map A P))))"
      using sum_list_mset_cong [OF h, of "signed_weight \<circ> snd"] by simp
    then show ?thesis by (simp add: evaluate_board_sum sum_mirror)
  qed
  moreover have "evaluate_board A P = (\<Sum>p\<leftarrow>map snd (piece_map A P).
        if color p then weight_of (piece_type p) else - weight_of (piece_type p))"
    by (simp add: evaluate_board_sum signed_weight_def cong: map_cong)
  ultimately show ?thesis by (simp add: weight_of_values)
qed

theorem evaluate_board_material_symmetry_witness:
  "mset (piece_map toy_mirrored []) = mset (mirror_piece_map (piece_map toy []))
   \<and> evaluate_board toy [] = - evaluate_board toy_mirrored []
   \<and> evaluate_board toy [] = - 500"
proof -
  have h: "mset (piece_map toy_mirrored []) = mset (mirror_piece_map (piece_map toy []))"
    by (simp add: toy_mirrored_def toy_def)
  have e: "evaluate_board toy [] = - 500"
    by code_simp
  from h e evaluate_board_material_symmetry [of toy_mirrored "[]" toy "[]"]
  show ?thesis by blast
qed

section \<open>Move ordering\<close>

lemma mset_order_moves: "mset (order_moves A board) = mset (legal_moves A board)"
  by (simp add: order_moves_def)

lemma set_order_moves: "set (order_moves A board) = set (legal_moves A board)"
  by (simp add: order_moves_def)

lemma order_moves_sorted:
  "sorted (map (\<lambda>m. - move_score A board m) (order_moves A board))"
  by (simp add: order_moves_def)

lemma order_moves_descending:
  assumes "i < j" "j < length (order_moves A board)"
  shows "move_score A board (order_moves A board ! j)
           \<le> move_score A board (order_moves A board ! i)"
proof -
  let ?ks = "map (\<lambda>m. - move_score A board m) (order_moves A board)"
  from assms have "i \<le> j" "j < length ?ks" by simp_all
  with order_moves_sorted [of A board] have "?ks ! i \<le> ?ks ! j"
    by (rule sorted_nth_mono)
  with assms show ?thesis by simp
qed

lemma move_score_cases:
  "move_score A board m =
     (if promotion m \<noteq> None then 900 else if is_capture A board m then 1 else 0)"
  by (simp add: move_score_def material_weights_def)

lemma toy_order_root:
  "order_moves toy [] =
     [mk_move 48 56 (Some QUEEN), mk_move 48 57 (Some QUEEN), mk_move 4 12 None, mk_move 4 5 None]"
  by code_simp

text \<open>
  C7. \<open>order_moves\<close> returns a permutation of the legal moves, sorted by descending score,
  where a promotion scores 900 (the queen's weight), any other capture 1 and any other
  move 0. So of two moves of the result, the later one is a promotion only if the earlier
  one is, and the later one is a capture only if the earlier one is a capture or a
  promotion: promotions come before all other moves, and captures before all moves that
  are neither.
\<close>

theorem order_moves_contract:
  "mset (order_moves A board) = mset (legal_moves A board)
   \<and> (\<forall>i j. i < j \<and> j < length (order_moves A board) \<longrightarrow>
        move_score A board (order_moves A board ! j)
          \<le> move_score A board (order_moves A board ! i)
        \<and> (promotion (order_moves A board ! j) \<noteq> None
             \<longrightarrow> promotion (order_moves A board ! i) \<noteq> None)
        \<and> (is_capture A board (order_moves A board ! j) \<longrightarrow>
             is_capture A board (order_moves A board ! i)
             \<or> promotion (order_moves A board ! i) \<noteq> None))
   \<and> (\<forall>m. move_score A board m =
          (if promotion m \<noteq> None then 900 else if is_capture A board m then 1 else 0))"
proof (intro conjI allI impI)
  show "mset (order_moves A board) = mset (legal_moves A board)"
    by (rule mset_order_moves)
next
  fix i j assume "i < j \<and> j < length (order_moves A board)"
  then show "move_score A board (order_moves A board ! j)
               \<le> move_score A board (order_moves A board ! i)"
    by (simp add: order_moves_descending)
next
  fix i j assume h: "i < j \<and> j < length (order_moves A board)"
    and p: "promotion (order_moves A board ! j) \<noteq> None"
  from h have "move_score A board (order_moves A board ! j)
                 \<le> move_score A board (order_moves A board ! i)"
    by (simp add: order_moves_descending)
  with p show "promotion (order_moves A board ! i) \<noteq> None"
    by (simp add: move_score_cases split: if_splits)
next
  fix i j assume h: "i < j \<and> j < length (order_moves A board)"
    and c: "is_capture A board (order_moves A board ! j)"
  from h have "move_score A board (order_moves A board ! j)
                 \<le> move_score A board (order_moves A board ! i)"
    by (simp add: order_moves_descending)
  with c show "is_capture A board (order_moves A board ! i)
                 \<or> promotion (order_moves A board ! i) \<noteq> None"
    by (simp add: move_score_cases split: if_splits)
next
  fix m show "move_score A board m =
          (if promotion m \<noteq> None then 900 else if is_capture A board m then 1 else 0)"
    by (rule move_score_cases)
qed

theorem order_moves_contract_witness:
  "(1::nat) < 2 \<and> 2 < length (order_moves toy [])
   \<and> promotion (order_moves toy [] ! 1) \<noteq> None
   \<and> is_capture toy [] (order_moves toy [] ! 2)
   \<and> move_score toy [] (order_moves toy [] ! 2) \<le> move_score toy [] (order_moves toy [] ! 1)
   \<and> mset (order_moves toy []) = mset (legal_moves toy [])"
proof -
  have "(1::nat) < 2 \<and> 2 < length (order_moves toy [])"
    by (simp add: toy_order_root)
  moreover have "promotion (order_moves toy [] ! 1) \<noteq> None"
    by (simp add: toy_order_root mk_move_def)
  moreover have "is_capture toy [] (order_moves toy [] ! 2)"
    unfolding toy_order_root by code_simp
  ultimately show ?thesis
    using order_moves_contract [of toy "[]"] by blast
qed

section \<open>The search: frame, termination and value\<close>

text \<open>One round of the loop, once the reply to the move has been searched.\<close>

lemma negamax_loop_Cons:
  assumes "negamax fuel A (push A board m) (depth - 1) (- beta) (- alpha) (- colour) = Some (pushed, cr)"
  shows "negamax_loop fuel A board depth (m # rest) max_eval alpha beta colour =
     (if beta \<le> max alpha (max max_eval (- cr)) then Some (pop A pushed, max max_eval (- cr))
      else negamax_loop fuel A (pop A pushed) depth rest
             (max max_eval (- cr)) (max alpha (max max_eval (- cr))) beta colour)"
  using assms by (simp add: Let_def max_def)

lemma negamax_loop_None:
  assumes "negamax fuel A (push A board m) (depth - 1) (- beta) (- alpha) (- colour) = None"
  shows "negamax_loop fuel A board depth (m # rest) max_eval alpha beta colour = None"
  using assms by simp

lemma negamax_loop_board:
  assumes IH: "\<And>board depth alpha beta colour b' r.
      negamax fuel A board depth alpha beta colour = Some (b', r) \<Longrightarrow> b' = board"
    and undo: "\<forall>b m. m \<in> set (legal_moves A b) \<longrightarrow> pop A (push A b m) = b"
  shows "negamax_loop fuel A board depth ms max_eval alpha beta colour = Some (b', r)
           \<Longrightarrow> set ms \<subseteq> set (legal_moves A board) \<Longrightarrow> b' = board"
proof (induction ms arbitrary: max_eval alpha)
  case Nil
  then show ?case by simp
next
  case (Cons m rest)
  from Cons.prems(1) obtain pushed cr where
    c: "negamax fuel A (push A board m) (depth - 1) (- beta) (- alpha) (- colour) = Some (pushed, cr)"
    by (cases "negamax fuel A (push A board m) (depth - 1) (- beta) (- alpha) (- colour)")
       (auto simp del: negamax_loop.simps simp add: negamax_loop_None)
  from IH [OF c] have "pushed = push A board m" .
  with Cons.prems(2) undo have restored: "pop A pushed = board"
    by simp
  note unfold = negamax_loop_Cons [OF c, of rest max_eval]
  show ?case
  proof (cases "beta \<le> max alpha (max max_eval (- cr))")
    case True
    with Cons.prems(1) restored show ?thesis
      by (simp only: unfold if_True option.inject prod.inject)
  next
    case False
    with Cons.prems(1) restored
    have "negamax_loop fuel A board depth rest (max max_eval (- cr))
            (max alpha (max max_eval (- cr))) beta colour = Some (b', r)"
      by (simp only: unfold if_False)
    moreover from Cons.prems(2) have "set rest \<subseteq> set (legal_moves A board)" by simp
    ultimately show ?thesis by (rule Cons.IH)
  qed
qed

lemma negamax_board:
  assumes undo: "\<forall>b m. m \<in> set (legal_moves A b) \<longrightarrow> pop A (push A b m) = b"
  shows "negamax fuel A board depth alpha beta colour = Some (b', r) \<Longrightarrow> b' = board"
proof (induction fuel arbitrary: board depth alpha beta colour b' r)
  case 0
  then show ?case by simp
next
  case (Suc fuel)
  show ?case
  proof (cases "depth = 0 \<or> is_game_over A board")
    case True
    with Suc.prems show ?thesis by auto
  next
    case False
    with Suc.prems
    have l: "negamax_loop fuel A board depth (order_moves A board) (- INFINITY) alpha beta colour
            = Some (b', r)"
      by simp
    show ?thesis
    proof (rule negamax_loop_board [OF _ undo l])
      show "b' = board" if "negamax fuel A board depth alpha beta colour = Some (b', r)"
        for board depth alpha beta colour b' r
        using that by (rule Suc.IH)
      show "set (order_moves A board) \<subseteq> set (legal_moves A board)"
        by (simp add: set_order_moves)
    qed
  qed
qed

text \<open>With more calls available than the depth, the search returns.\<close>

lemma negamax_loop_total:
  assumes IH: "\<And>board alpha beta colour.
      negamax fuel A board (depth - 1) alpha beta colour \<noteq> None"
  shows "negamax_loop fuel A board depth ms max_eval alpha beta colour \<noteq> None"
proof (induction ms arbitrary: board max_eval alpha)
  case Nil
  show ?case by simp
next
  case (Cons m rest)
  from IH obtain pushed cr where
    c: "negamax fuel A (push A board m) (depth - 1) (- beta) (- alpha) (- colour) = Some (pushed, cr)"
    by fastforce
  show ?case
    using Cons.IH by (simp only: negamax_loop_Cons [OF c] split: if_split) simp
qed

lemma negamax_total:
  "n < fuel \<Longrightarrow> negamax fuel A board (int n) alpha beta colour \<noteq> None"
proof (induction n arbitrary: fuel board alpha beta colour)
  case 0
  then obtain f where "fuel = Suc f" by (cases fuel) auto
  then show ?case by simp
next
  case (Suc n)
  then obtain f where f: "fuel = Suc f" "n < f" by (cases fuel) auto
  have "negamax_loop f A board (int (Suc n)) ms max_eval alpha beta colour \<noteq> None" for ms max_eval
    by (rule negamax_loop_total) (simp add: Suc.IH [OF f(2)])
  then show ?case by (simp add: f)
qed

lemma fold_max_ge: "(a::int) \<le> fold (\<lambda>m best. max best (g m)) ms a"
proof (induction ms arbitrary: a)
  case Nil
  show ?case by simp
next
  case (Cons m ms)
  have "a \<le> max a (g m)" by simp
  also have "\<dots> \<le> fold (\<lambda>m best. max best (g m)) ms (max a (g m))" by (rule Cons.IH)
  finally show ?case by simp
qed

lemma fold_max_start:
  "fold (\<lambda>m best. max best (g m)) ms (max a b) =
     max (a::int) (fold (\<lambda>m best. max best (g m)) ms b)"
proof (induction ms arbitrary: a b)
  case Nil
  show ?case by simp
next
  case (Cons m ms)
  have "max (max a b) (g m) = max a (max b (g m))" by simp
  then show ?case by (simp add: Cons.IH del: max.assoc)
qed

lemma fold_max_shift:
  assumes "x < fold (\<lambda>m best. max best (g m)) ms x"
  shows "fold (\<lambda>m best. max best (g m)) ms y = max (y::int) (fold (\<lambda>m best. max best (g m)) ms x)"
proof -
  let ?F = "fold (\<lambda>m best. max best (g m)) ms"
  have x: "?F x = max x (?F (min x y))"
    using fold_max_start [of g ms x "min x y"] by (simp only: max.absorb1 min.cobounded1)
  have y: "?F y = max y (?F (min x y))"
    using fold_max_start [of g ms y "min x y"] by (simp only: max.absorb1 min.cobounded2)
  from x assms have "?F (min x y) = ?F x" by linarith
  with y show ?thesis by simp
qed

lemma fold_max_mono:
  assumes "(a::int) \<le> b"
  shows "fold (\<lambda>m best. max best (g m)) ms a \<le> fold (\<lambda>m best. max best (g m)) ms b"
proof -
  have "fold (\<lambda>m best. max best (g m)) ms b = max b (fold (\<lambda>m best. max best (g m)) ms a)"
    using fold_max_start [of g ms b a] by (simp only: max.absorb1 [OF assms])
  then show ?thesis by simp
qed

lemma fail_soft_low:
  assumes "fail_soft alpha beta M' r" "me \<le> alpha" "M \<le> M'" "x \<le> me" "alpha < beta"
    and "me < M' \<Longrightarrow> M = max x M'"
  shows "fail_soft alpha beta M r"
proof -
  have 1: "M \<le> r" if "r \<le> alpha"
    using that assms(1,3) by (simp add: fail_soft_def)
  have 2: "M = r" if "alpha < r" "r < beta"
  proof -
    from that assms(1) have "M' = r" by (simp add: fail_soft_def)
    with that assms(2,4) assms(6) show ?thesis by linarith
  qed
  have 3: "r \<le> M" if "beta \<le> r"
  proof -
    from that assms(1) have "r \<le> M'" by (simp add: fail_soft_def)
    with that assms(2,5) have "me < M'" by linarith
    from assms(6) [OF this] \<open>r \<le> M'\<close> show ?thesis by linarith
  qed
  from 1 2 3 show ?thesis by (simp add: fail_soft_def)
qed

lemma negamax_loop_fail_soft:
  assumes IH: "\<And>bd a b c. - INFINITY \<le> a \<Longrightarrow> a < b \<Longrightarrow> b \<le> INFINITY \<Longrightarrow>
      \<exists>cr. negamax fuel A bd (int n) a b c = Some (bd, cr)
          \<and> fail_soft a b (full_width_minimax A bd n c) cr"
    and undo: "\<forall>b m. m \<in> set (legal_moves A b) \<longrightarrow> pop A (push A b m) = b"
    and beta: "beta \<le> INFINITY"
  shows "set ms \<subseteq> set (legal_moves A board) \<Longrightarrow> max_eval \<le> alpha \<Longrightarrow> - INFINITY \<le> alpha
      \<Longrightarrow> alpha < beta \<Longrightarrow>
      \<exists>r. negamax_loop fuel A board (int (Suc n)) ms max_eval alpha beta colour = Some (board, r)
        \<and> fail_soft alpha beta
             (fold (\<lambda>m best. max best (- full_width_minimax A (push A board m) n (- colour)))
                ms max_eval) r"
proof (induction ms arbitrary: max_eval alpha)
  case Nil
  show ?case by (simp add: fail_soft_def)
next
  case (Cons m rest)
  let ?g = "\<lambda>m. - full_width_minimax A (push A board m) n (- colour)"
  let ?F = "fold (\<lambda>m best. max best (?g m)) rest"
  from Cons.prems beta have w: "- INFINITY \<le> - beta" "- beta < - alpha" "- alpha \<le> INFINITY"
    by simp_all
  from IH [OF w, of "push A board m" "- colour"] obtain cr where
    c: "negamax fuel A (push A board m) (int (Suc n) - 1) (- beta) (- alpha) (- colour)
          = Some (push A board m, cr)"
    and fs: "fail_soft (- beta) (- alpha) (- ?g m) cr"
    by auto
  from Cons.prems(1) undo have restored: "pop A (push A board m) = board"
    by simp
  note unfold = negamax_loop_Cons [OF c, of rest max_eval, unfolded restored]
  define ev where "ev = - cr"
  define e where "e = ?g m"
  from fs have fs': "fail_soft alpha beta e ev"
    by (auto simp: fail_soft_def ev_def e_def)
  have goal_fold: "fold (\<lambda>m best. max best (?g m)) (m # rest) max_eval = ?F (max max_eval e)"
    by (simp add: e_def)
  show ?case
  proof (cases "beta \<le> max alpha (max max_eval ev)")
    case True
    with Cons.prems have "beta \<le> ev" "max max_eval ev = ev" by linarith+
    moreover from this fs' Cons.prems have "ev \<le> e" by (simp add: fail_soft_def)
    moreover have "max max_eval e \<le> ?F (max max_eval e)" by (rule fold_max_ge)
    ultimately have "fail_soft alpha beta (?F (max max_eval e)) (max max_eval ev)"
      using Cons.prems by (simp add: fail_soft_def)
    with True show ?thesis
      unfolding goal_fold by (simp only: unfold ev_def [symmetric] if_True) simp
  next
    case False
    let ?me = "max max_eval ev"
    let ?al = "max alpha ?me"
    have "set rest \<subseteq> set (legal_moves A board)" "?me \<le> ?al" "- INFINITY \<le> ?al" "?al < beta"
      using Cons.prems False by simp_all
    from Cons.IH [OF this] obtain r where
      l: "negamax_loop fuel A board (int (Suc n)) rest ?me ?al beta colour = Some (board, r)"
      and fr: "fail_soft ?al beta (?F ?me) r"
      by auto
    have "fail_soft alpha beta (?F (max max_eval e)) r"
    proof (cases "ev \<le> alpha")
      case True
      with fs' have ee: "e \<le> ev" by (simp add: fail_soft_def)
      from True Cons.prems have al: "?al = alpha" "?me \<le> alpha" by linarith+
      have mono: "?F (max max_eval e) \<le> ?F ?me"
        using ee by (intro fold_max_mono) auto
      have shift: "?F (max max_eval e) = max (max max_eval e) (?F ?me)" if "?me < ?F ?me"
        using that by (rule fold_max_shift)
      show ?thesis
      proof (rule fail_soft_low [of alpha beta "?F ?me" r ?me _ "max max_eval e"])
        from fr show "fail_soft alpha beta (?F ?me) r" by (simp only: al(1))
        show "?me \<le> alpha" by (rule al(2))
        show "?F (max max_eval e) \<le> ?F ?me" by (rule mono)
        from ee show "max max_eval e \<le> ?me" by linarith
        show "alpha < beta" by (rule Cons.prems(4))
        show "?F (max max_eval e) = max (max max_eval e) (?F ?me)" if "?me < ?F ?me"
          using that by (rule shift)
      qed
    next
      case False
      with \<open>?al < beta\<close> fs' have ee: "e = ev" by (auto simp: fail_soft_def)
      from False Cons.prems have al: "?al = ev" "?me = ev" by linarith+
      have "ev \<le> ?F ev" by (rule fold_max_ge)
      with fr False show ?thesis
        unfolding fail_soft_def ee al by auto
    qed
    with False l show ?thesis
      unfolding goal_fold by (simp only: unfold ev_def [symmetric] if_False) simp
  qed
qed

lemma negamax_fail_soft:
  assumes undo: "\<forall>b m. m \<in> set (legal_moves A b) \<longrightarrow> pop A (push A b m) = b"
  shows "n < fuel \<Longrightarrow> - INFINITY \<le> a \<Longrightarrow> a < b \<Longrightarrow> b \<le> INFINITY \<Longrightarrow>
      \<exists>r. negamax fuel A board (int n) a b colour = Some (board, r)
          \<and> fail_soft a b (full_width_minimax A board n colour) r"
proof (induction n arbitrary: fuel board a b colour)
  case 0
  then obtain f where "fuel = Suc f" by (cases fuel) auto
  then show ?case by (simp add: fail_soft_def)
next
  case (Suc n)
  then obtain f where f: "fuel = Suc f" "n < f" by (cases fuel) auto
  show ?case
  proof (cases "is_game_over A board")
    case True
    then show ?thesis by (simp add: f fail_soft_def)
  next
    case False
    have "\<exists>r. negamax_loop f A board (int (Suc n)) (order_moves A board) (- INFINITY) a b colour
             = Some (board, r)
        \<and> fail_soft a b
             (fold (\<lambda>m best. max best (- full_width_minimax A (push A board m) n (- colour)))
                (order_moves A board) (- INFINITY)) r"
    proof (rule negamax_loop_fail_soft [OF _ undo])
      show "\<exists>cr. negamax f A bd (int n) a b c = Some (bd, cr)
          \<and> fail_soft a b (full_width_minimax A bd n c) cr"
        if "- INFINITY \<le> a" "a < b" "b \<le> INFINITY" for bd a b c
        using f(2) that by (rule Suc.IH)
    qed (use Suc.prems in \<open>simp_all add: set_order_moves\<close>)
    with False show ?thesis by (simp add: f)
  qed
qed

text \<open>The range of the scores.\<close>

lemma negamax_loop_ge:
  "negamax_loop fuel A board depth ms max_eval alpha beta colour = Some (b', r) \<Longrightarrow> max_eval \<le> r"
proof (induction ms arbitrary: board max_eval alpha)
  case Nil
  then show ?case by simp
next
  case (Cons m rest)
  from Cons.prems obtain pushed cr where
    c: "negamax fuel A (push A board m) (depth - 1) (- beta) (- alpha) (- colour) = Some (pushed, cr)"
    by (cases "negamax fuel A (push A board m) (depth - 1) (- beta) (- alpha) (- colour)")
       (auto simp del: negamax_loop.simps simp add: negamax_loop_None)
  show ?case
  proof (cases "beta \<le> max alpha (max max_eval (- cr))")
    case True
    with Cons.prems show ?thesis
      by (simp only: negamax_loop_Cons [OF c] if_True option.inject prod.inject) linarith
  next
    case False
    with Cons.prems have "negamax_loop fuel A (pop A pushed) depth rest (max max_eval (- cr))
        (max alpha (max max_eval (- cr))) beta colour = Some (b', r)"
      by (simp only: negamax_loop_Cons [OF c] if_False)
    from Cons.IH [OF this] show ?thesis by linarith
  qed
qed

text \<open>Every result of the loop is the start value or the negated result of a searched reply;
  with a move to search it is at least the negated result of the first reply.\<close>

lemma negamax_loop_result:
  "negamax_loop fuel A board depth ms max_eval alpha beta colour = Some (b', r) \<Longrightarrow>
     (r = max_eval \<or> (\<exists>bd a b pushed cr.
        negamax fuel A bd (depth - 1) a b (- colour) = Some (pushed, cr) \<and> r = - cr))
     \<and> (ms \<noteq> [] \<longrightarrow> (\<exists>bd a b pushed cr.
        negamax fuel A bd (depth - 1) a b (- colour) = Some (pushed, cr) \<and> - cr \<le> r))"
proof (induction ms arbitrary: board max_eval alpha)
  case Nil
  then show ?case by simp
next
  case (Cons m rest)
  from Cons.prems obtain pushed cr where
    c: "negamax fuel A (push A board m) (depth - 1) (- beta) (- alpha) (- colour) = Some (pushed, cr)"
    by (cases "negamax fuel A (push A board m) (depth - 1) (- beta) (- alpha) (- colour)")
       (auto simp del: negamax_loop.simps simp add: negamax_loop_None)
  have ge: "max max_eval (- cr) \<le> r"
  proof (cases "beta \<le> max alpha (max max_eval (- cr))")
    case True
    with Cons.prems show ?thesis
      by (simp only: negamax_loop_Cons [OF c] if_True option.inject prod.inject)
  next
    case False
    with Cons.prems have "negamax_loop fuel A (pop A pushed) depth rest (max max_eval (- cr))
        (max alpha (max max_eval (- cr))) beta colour = Some (b', r)"
      by (simp only: negamax_loop_Cons [OF c] if_False)
    then show ?thesis by (rule negamax_loop_ge)
  qed
  have "r = max_eval \<or> (\<exists>bd a b pushed cr.
        negamax fuel A bd (depth - 1) a b (- colour) = Some (pushed, cr) \<and> r = - cr)"
  proof (cases "beta \<le> max alpha (max max_eval (- cr))")
    case True
    with Cons.prems have "r = max max_eval (- cr)"
      by (simp only: negamax_loop_Cons [OF c] if_True option.inject prod.inject)
    with c show ?thesis by (cases "max_eval \<le> - cr") (auto simp: max_def)
  next
    case False
    with Cons.prems have "negamax_loop fuel A (pop A pushed) depth rest (max max_eval (- cr))
        (max alpha (max max_eval (- cr))) beta colour = Some (b', r)"
      by (simp only: negamax_loop_Cons [OF c] if_False)
    from Cons.IH [OF this] c show ?thesis by (cases "max_eval \<le> - cr") (auto simp: max_def)
  qed
  moreover from c ge have "\<exists>bd a b pushed cr.
        negamax fuel A bd (depth - 1) a b (- colour) = Some (pushed, cr) \<and> - cr \<le> r"
    by (intro exI [of _ "push A board m"] exI [of _ "- beta"] exI [of _ "- alpha"]
          exI [of _ pushed] exI [of _ cr]) simp
  ultimately show ?case by simp
qed

lemma INFINITY_gt: "57600 < INFINITY"
  by (simp add: INFINITY_def)

lemma leaf_bound:
  assumes "length (piece_map A board) \<le> 64" "colour = 1 \<or> colour = - 1"
  shows "\<bar>colour * evaluate_board A board\<bar> \<le> 57600"
  using evaluate_board_bound [OF assms(1)] assms(2) by auto

lemma negamax_range:
  assumes pieces: "\<forall>b. length (piece_map A b) \<le> 64"
  shows "colour = 1 \<or> colour = - 1 \<Longrightarrow>
     negamax fuel A board depth alpha beta colour = Some (b', r) \<Longrightarrow> \<bar>r\<bar> \<le> INFINITY"
proof (induction fuel arbitrary: board depth alpha beta colour b' r)
  case 0
  then show ?case by simp
next
  case (Suc fuel)
  show ?case
  proof (cases "depth = 0 \<or> is_game_over A board")
    case True
    with Suc.prems(2) have "r = colour * evaluate_board A board" by auto
    with leaf_bound [of A board colour] pieces Suc.prems(1) INFINITY_gt show ?thesis by simp
  next
    case False
    with Suc.prems(2)
    have "negamax_loop fuel A board depth (order_moves A board) (- INFINITY) alpha beta colour
            = Some (b', r)"
      by simp
    from negamax_loop_result [OF this]
    consider "r = - INFINITY"
      | bd a b pushed cr where
          "negamax fuel A bd (depth - 1) a b (- colour) = Some (pushed, cr)" "r = - cr"
      by blast
    then show ?thesis
    proof cases
      case 1
      then show ?thesis by (simp add: INFINITY_def)
    next
      case 2
      from Suc.prems(1) have "- colour = 1 \<or> - colour = - 1" by auto
      from Suc.IH [OF this 2(1)] 2(2) show ?thesis by simp
    qed
  qed
qed

lemma negamax_range_strict:
  assumes pieces: "\<forall>b. length (piece_map A b) \<le> 64"
    and moves: "\<forall>b. \<not> is_game_over A b \<longrightarrow> legal_moves A b \<noteq> []"
  shows "colour = 1 \<or> colour = - 1 \<Longrightarrow>
     negamax fuel A board depth alpha beta colour = Some (b', r) \<Longrightarrow> \<bar>r\<bar> < INFINITY"
proof (induction fuel arbitrary: board depth alpha beta colour b' r)
  case 0
  then show ?case by simp
next
  case (Suc fuel)
  show ?case
  proof (cases "depth = 0 \<or> is_game_over A board")
    case True
    with Suc.prems(2) have "r = colour * evaluate_board A board" by auto
    with leaf_bound [of A board colour] pieces Suc.prems(1) INFINITY_gt show ?thesis by simp
  next
    case False
    with Suc.prems(2)
    have l: "negamax_loop fuel A board depth (order_moves A board) (- INFINITY) alpha beta colour
            = Some (b', r)"
      by simp
    from False moves have "set (legal_moves A board) \<noteq> {}" by simp
    then have ne: "order_moves A board \<noteq> []"
      by (simp only: set_order_moves [symmetric] set_empty not_False_eq_True)
    from Suc.prems(1) have col: "- colour = 1 \<or> - colour = - 1" by auto
    from negamax_loop_result [OF l] ne obtain bd a b pushed cr where
      first: "negamax fuel A bd (depth - 1) a b (- colour) = Some (pushed, cr)" "- cr \<le> r"
      by blast
    from Suc.IH [OF col first(1)] first(2) have low: "- INFINITY < r" by simp
    from negamax_loop_result [OF l]
    consider "r = - INFINITY"
      | bd a b pushed cr where
          "negamax fuel A bd (depth - 1) a b (- colour) = Some (pushed, cr)" "r = - cr"
      by blast
    then show ?thesis
    proof cases
      case 1
      with low show ?thesis by simp
    next
      case 2
      from Suc.IH [OF col 2(1)] 2(2) show ?thesis by simp
    qed
  qed
qed

lemma full_width_minimax_range:
  assumes pieces: "\<forall>b. length (piece_map A b) \<le> 64"
  shows "colour = 1 \<or> colour = - 1 \<Longrightarrow> \<bar>full_width_minimax A board n colour\<bar> \<le> INFINITY"
proof (induction n arbitrary: board colour)
  case 0
  with leaf_bound [of A board colour] pieces INFINITY_gt show ?case by simp
next
  case (Suc n)
  show ?case
  proof (cases "is_game_over A board")
    case True
    with leaf_bound [of A board colour] pieces Suc.prems INFINITY_gt show ?thesis by simp
  next
    case False
    from Suc.prems have col: "- colour = 1 \<or> - colour = - 1" by auto
    have "\<bar>fold (\<lambda>m best. max best (- full_width_minimax A (push A board m) n (- colour))) ms s\<bar>
            \<le> INFINITY" if "\<bar>s\<bar> \<le> INFINITY" for ms s
      using that
    proof (induction ms arbitrary: s)
      case Nil
      then show ?case by simp
    next
      case (Cons m ms)
      from Suc.IH [OF col, of "push A board m"] Cons.prems
      have "\<bar>max s (- full_width_minimax A (push A board m) n (- colour))\<bar> \<le> INFINITY"
        by linarith
      from Cons.IH [OF this] show ?case by simp
    qed
    from this [of "- INFINITY" "order_moves A board"] False show ?thesis
      by (simp add: INFINITY_def)
  qed
qed

section \<open>The small game meets the assumptions on boards\<close>

lemma toy_undo: "\<forall>b m. m \<in> set (legal_moves toy b) \<longrightarrow> pop toy (push toy b m) = b"
  by (simp add: toy_def)

lemma length_apply_move: "length (apply_move pm m) \<le> length pm"
proof (cases "map_of pm (from_square m)")
  case None
  then show ?thesis by (simp add: apply_move_def)
next
  case (Some p)
  then have "(from_square m, p) \<in> set pm" by (rule map_of_SomeD)
  then have "length (filter (\<lambda>(sq, _). sq \<noteq> from_square m \<and> sq \<noteq> to_square m) pm) < length pm"
    by (intro length_filter_less [where x = "(from_square m, p)"]) auto
  with Some show ?thesis by (simp add: apply_move_def)
qed

lemma length_toy_pieces: "length (toy_pieces h) \<le> 5"
proof (induction h)
  case Nil
  show ?case by (simp add: toy_start_def)
next
  case (Cons m h)
  with length_apply_move [of "toy_pieces h" m] show ?case by simp
qed

lemma toy_pieces_bound: "\<forall>b. length (piece_map toy b) \<le> 64"
proof
  fix b
  from length_toy_pieces [of b] show "length (piece_map toy b) \<le> 64"
    by (simp add: toy_def)
qed

lemma toy_moves: "\<forall>b. \<not> is_game_over toy b \<longrightarrow> legal_moves toy b \<noteq> []"
  by (simp add: toy_def)

section \<open>Pruning\<close>

text \<open>
  C1. Alpha-beta pruning preserves the value. On a board interface whose \<open>pop\<close> undoes
  the \<open>push\<close> of a legal move and whose boards hold at most 64 pieces, for every depth
  \<open>d \<ge> 0\<close>, colour \<open>1\<close> or \<open>-1\<close> and more than \<open>d\<close> nested calls available, the search
  with the full window \<open>(-INFINITY, INFINITY)\<close> returns, with the board as passed in, exactly
  the score of the unpruned full-width search of the same depth.
\<close>

theorem negamax_value_preserving:
  assumes undo: "\<forall>b m. m \<in> set (legal_moves A b) \<longrightarrow> pop A (push A b m) = b"
    and pieces: "\<forall>b. length (piece_map A b) \<le> 64"
    and colour: "colour = 1 \<or> colour = - 1"
    and depth: "0 \<le> d" "nat d < fuel"
  shows "negamax fuel A board d (- INFINITY) INFINITY colour
           = Some (board, full_width_minimax A board (nat d) colour)"
proof -
  have w: "- INFINITY \<le> - INFINITY" "- INFINITY < INFINITY" "INFINITY \<le> INFINITY"
    by (simp_all add: INFINITY_def)
  from negamax_fail_soft [OF undo depth(2) w, of board colour] depth(1) obtain r where
    r: "negamax fuel A board d (- INFINITY) INFINITY colour = Some (board, r)"
    and fs: "fail_soft (- INFINITY) INFINITY (full_width_minimax A board (nat d) colour) r"
    by auto
  from negamax_range [OF pieces colour r] have "\<bar>r\<bar> \<le> INFINITY" .
  moreover from full_width_minimax_range [OF pieces colour]
  have "\<bar>full_width_minimax A board (nat d) colour\<bar> \<le> INFINITY" .
  ultimately have "full_width_minimax A board (nat d) colour = r"
    using fs unfolding fail_soft_def by linarith
  with r show ?thesis by simp
qed

theorem negamax_value_preserving_witness:
  "negamax 4 toy [] 3 (- INFINITY) INFINITY 1 = Some ([], full_width_minimax toy [] (nat 3) 1)
   \<and> negamax 4 toy [] 3 (- INFINITY) INFINITY 1 = Some ([], 900)"
proof -
  have "negamax 4 toy [] 3 (- INFINITY) INFINITY 1 = Some ([], 900)"
    by code_simp
  moreover have "negamax 4 toy [] 3 (- INFINITY) INFINITY 1
      = Some ([], full_width_minimax toy [] (nat 3) 1)"
    by (rule negamax_value_preserving [OF toy_undo toy_pieces_bound]) simp_all
  ultimately show ?thesis by simp
qed

section \<open>Score bounds\<close>

text \<open>
  C9. A board of at most 64 pieces evaluates strictly inside \<open>(-INFINITY, INFINITY)\<close>.
  Hence, when all boards are such, every score the search returns at a depth \<open>\<ge> 0\<close> has
  magnitude at most \<open>INFINITY\<close>, and so has its negation, which is exact on the unbounded
  integers of the source; where every position that is not game over has a legal move,
  the score and its negation differ from both sentinels \<open>INFINITY\<close> and \<open>-INFINITY\<close>.
\<close>

theorem score_bounds:
  assumes colour: "colour = 1 \<or> colour = - 1"
    and depth: "0 \<le> depth" "nat depth < fuel"
  shows "(length (piece_map A board) \<le> 64 \<longrightarrow> \<bar>evaluate_board A board\<bar> < INFINITY)
    \<and> ((\<forall>b. length (piece_map A b) \<le> 64) \<longrightarrow>
         (\<exists>b' r. negamax fuel A board depth alpha beta colour = Some (b', r)
            \<and> \<bar>r\<bar> \<le> INFINITY \<and> \<bar>- r\<bar> \<le> INFINITY \<and> - (- r) = r
            \<and> ((\<forall>b. \<not> is_game_over A b \<longrightarrow> legal_moves A b \<noteq> [])
                  \<longrightarrow> \<bar>r\<bar> < INFINITY \<and> - r \<noteq> - INFINITY \<and> - r \<noteq> INFINITY)))"
proof (intro conjI impI)
  assume "length (piece_map A board) \<le> 64"
  from evaluate_board_bound [OF this] INFINITY_gt
  show "\<bar>evaluate_board A board\<bar> < INFINITY" by linarith
next
  assume pieces: "\<forall>b. length (piece_map A b) \<le> 64"
  from negamax_total [OF depth(2), of A board alpha beta colour] depth(1)
  obtain b' r where r: "negamax fuel A board depth alpha beta colour = Some (b', r)"
    by auto
  from negamax_range [OF pieces colour r] have le: "\<bar>r\<bar> \<le> INFINITY" .
  have "\<bar>r\<bar> < INFINITY \<and> - r \<noteq> - INFINITY \<and> - r \<noteq> INFINITY"
    if "\<forall>b. \<not> is_game_over A b \<longrightarrow> legal_moves A b \<noteq> []"
    using negamax_range_strict [OF pieces that colour r] by auto
  with r le show "\<exists>b' r. negamax fuel A board depth alpha beta colour = Some (b', r)
            \<and> \<bar>r\<bar> \<le> INFINITY \<and> \<bar>- r\<bar> \<le> INFINITY \<and> - (- r) = r
            \<and> ((\<forall>b. \<not> is_game_over A b \<longrightarrow> legal_moves A b \<noteq> [])
                  \<longrightarrow> \<bar>r\<bar> < INFINITY \<and> - r \<noteq> - INFINITY \<and> - r \<noteq> INFINITY)"
    by auto
qed

theorem score_bounds_witness:
  "\<bar>evaluate_board toy []\<bar> < INFINITY
   \<and> (\<exists>b' r. negamax 4 toy [] 3 (- INFINITY) INFINITY 1 = Some (b', r)
         \<and> \<bar>r\<bar> < INFINITY \<and> - r \<noteq> - INFINITY \<and> - r \<noteq> INFINITY)"
  using score_bounds [of 1 3 4 toy "[]" "- INFINITY" INFINITY] toy_pieces_bound toy_moves
  by auto


section \<open>Board restoration\<close>

lemma evaluate_move_Some:
  assumes "1 \<le> d" "nat d \<le> fuel"
  shows "\<exists>b' r. negamax fuel A (push A (Board A f) m) (d - 1) (- INFINITY) INFINITY (- 1)
                  = Some (b', r)
              \<and> evaluate_move fuel A (m, f, d) = Some (m, - r)"
proof -
  from assms have "nat (d - 1) < fuel" by linarith
  from negamax_total [OF this, of A "push A (Board A f) m" "- INFINITY" INFINITY "- 1"] assms(1)
  obtain b' r where
    "negamax fuel A (push A (Board A f) m) (d - 1) (- INFINITY) INFINITY (- 1) = Some (b', r)"
    by auto
  then show ?thesis by (simp add: evaluate_move_def Let_def)
qed

text \<open>The list of results that the workers hand back, and what is chosen from it.\<close>

lemma root_results:
  assumes "1 \<le> d" "nat d \<le> fuel"
  shows "those (map (evaluate_move fuel A) (map (\<lambda>m. (m, f, d)) ms)) =
     Some (map (\<lambda>m. (m, - snd (the (negamax fuel A (push A (Board A f) m) (d - 1)
                                     (- INFINITY) INFINITY (- 1))))) ms)"
proof (induction ms)
  case Nil
  show ?case by simp
next
  case (Cons m ms)
  from evaluate_move_Some [OF assms, of A f m] obtain b' r where
    "negamax fuel A (push A (Board A f) m) (d - 1) (- INFINITY) INFINITY (- 1) = Some (b', r)"
    "evaluate_move fuel A (m, f, d) = Some (m, - r)"
    by blast
  with Cons.IH show ?case by simp
qed

lemma choose_best_move_eq:
  assumes "1 \<le> d" "nat d \<le> fuel"
  shows "choose_best_move fuel A board d =
     Some (board, best_of (map (\<lambda>m. (m, - snd (the (negamax fuel A
               (push A (Board A (fen A board)) m) (d - 1) (- INFINITY) INFINITY (- 1)))))
             (order_moves A board)) None (- INFINITY))"
  by (simp only: choose_best_move_def Let_def root_results [OF assms] option.case)

text \<open>
  C10. When \<open>pop\<close> undoes the \<open>push\<close> of a legal move, the search at a depth \<open>\<ge> 0\<close>
  returns, and returns the board in the state it was passed in, whatever the window and
  the colour, cutoffs included; and \<open>choose_best_move\<close> (depth \<open>\<ge> 1\<close>) returns with its
  input board unchanged, the workers having searched boards of their own rebuilt from the
  encoding.
\<close>

theorem board_restoration:
  assumes undo: "\<forall>b m. m \<in> set (legal_moves A b) \<longrightarrow> pop A (push A b m) = b"
    and depth: "0 \<le> depth" "nat depth < fuel"
  shows "(\<exists>r. negamax fuel A board depth alpha beta colour = Some (board, r))
    \<and> (\<forall>max_depth fuel'. 1 \<le> max_depth \<and> nat max_depth \<le> fuel' \<longrightarrow>
          (\<exists>best. choose_best_move fuel' A board max_depth = Some (board, best)))"
proof (intro conjI allI impI)
  from negamax_total [OF depth(2), of A board alpha beta colour] depth(1)
  obtain b' r where r: "negamax fuel A board depth alpha beta colour = Some (b', r)"
    by auto
  from negamax_board [OF undo r] r
  show "\<exists>r. negamax fuel A board depth alpha beta colour = Some (board, r)"
    by simp
next
  fix max_depth :: int and fuel' :: nat
  assume "1 \<le> max_depth \<and> nat max_depth \<le> fuel'"
  then have d: "1 \<le> max_depth" "nat max_depth \<le> fuel'" by simp_all
  show "\<exists>best. choose_best_move fuel' A board max_depth = Some (board, best)"
    by (simp add: choose_best_move_eq [OF d])
qed

theorem board_restoration_witness:
  "(\<exists>r. negamax 4 toy [mk_move 4 5 None] 3 (- 50) 70 (- 1) = Some ([mk_move 4 5 None], r))
   \<and> (\<exists>best. choose_best_move 3 toy [] 3 = Some ([], best))"
  using board_restoration [OF toy_undo, where depth = 3 and fuel = 4
      and board = "[mk_move 4 5 None]" and alpha = "- 50" and beta = 70 and colour = "- 1"]
    board_restoration [OF toy_undo, where depth = 3 and fuel = 4
      and board = "[]" and alpha = "- 50" and beta = 70 and colour = "- 1"]
  by simp

section \<open>The root scheduler\<close>

lemma best_of_cases:
  "(best_of results bm me = bm \<and> (\<forall>x\<in>set results. snd x \<le> me))
   \<or> (\<exists>m s. best_of results bm me = Some m \<and> (m, s) \<in> set results \<and> me < s
         \<and> (\<forall>x\<in>set results. snd x \<le> s))"
proof (induction results arbitrary: bm me)
  case Nil
  show ?case by simp
next
  case (Cons x results)
  obtain m1 s1 where x: "x = (m1, s1)" by (cases x)
  show ?case
  proof (cases "s1 > me")
    case True
    from Cons.IH [of "Some m1" s1] show ?thesis
    proof
      assume "best_of results (Some m1) s1 = Some m1 \<and> (\<forall>x\<in>set results. snd x \<le> s1)"
      with True x have "best_of (x # results) bm me = Some m1 \<and> (m1, s1) \<in> set (x # results)
          \<and> me < s1 \<and> (\<forall>y\<in>set (x # results). snd y \<le> s1)"
        by simp
      then show ?thesis by blast
    next
      assume "\<exists>m s. best_of results (Some m1) s1 = Some m \<and> (m, s) \<in> set results \<and> s1 < s
         \<and> (\<forall>x\<in>set results. snd x \<le> s)"
      then obtain m s where "best_of results (Some m1) s1 = Some m" "(m, s) \<in> set results"
        "s1 < s" "\<forall>x\<in>set results. snd x \<le> s"
        by blast
      with True x have "best_of (x # results) bm me = Some m \<and> (m, s) \<in> set (x # results)
          \<and> me < s \<and> (\<forall>y\<in>set (x # results). snd y \<le> s)"
        by simp
      then show ?thesis by blast
    qed
  next
    case False
    from Cons.IH [of bm me] show ?thesis
    proof
      assume "best_of results bm me = bm \<and> (\<forall>x\<in>set results. snd x \<le> me)"
      with False x show ?thesis by simp
    next
      assume "\<exists>m s. best_of results bm me = Some m \<and> (m, s) \<in> set results \<and> me < s
         \<and> (\<forall>x\<in>set results. snd x \<le> s)"
      then obtain m s where "best_of results bm me = Some m" "(m, s) \<in> set results"
        "me < s" "\<forall>x\<in>set results. snd x \<le> s"
        by blast
      with False x have "best_of (x # results) bm me = Some m \<and> (m, s) \<in> set (x # results)
          \<and> me < s \<and> (\<forall>y\<in>set (x # results). snd y \<le> s)"
        by simp
      then show ?thesis by blast
    qed
  qed
qed

text \<open>The score a worker returns for a root move is above the start value of the scan.\<close>

lemma root_score_gt:
  assumes pieces: "\<forall>b. length (piece_map A b) \<le> 64"
    and moves: "\<forall>b. \<not> is_game_over A b \<longrightarrow> legal_moves A b \<noteq> []"
    and d: "1 \<le> d" "nat d \<le> fuel"
  shows "- INFINITY < - snd (the (negamax fuel A (push A (Board A f) m) (d - 1)
                                    (- INFINITY) INFINITY (- 1)))"
proof -
  from evaluate_move_Some [OF d, of A f m] obtain b' r where
    r: "negamax fuel A (push A (Board A f) m) (d - 1) (- INFINITY) INFINITY (- 1) = Some (b', r)"
    by blast
  have "(- 1 :: int) = 1 \<or> (- 1 :: int) = - 1" by simp
  from negamax_range_strict [OF pieces moves this r] r show ?thesis by simp
qed

lemma root_best:
  assumes pieces: "\<forall>b. length (piece_map A b) \<le> 64"
    and moves: "\<forall>b. \<not> is_game_over A b \<longrightarrow> legal_moves A b \<noteq> []"
    and d: "1 \<le> d" "nat d \<le> fuel"
    and ne: "ms \<noteq> []"
    and results: "results = map (\<lambda>m. (m, - snd (the (negamax fuel A (push A (Board A f) m) (d - 1)
                                     (- INFINITY) INFINITY (- 1))))) ms"
  shows "\<exists>best score. best_of results None (- INFINITY) = Some best
           \<and> (best, score) \<in> set results \<and> (\<forall>x\<in>set results. snd x \<le> score)"
proof -
  from ne obtain m where m: "m \<in> set ms" by (cases ms) auto
  let ?x = "(m, - snd (the (negamax fuel A (push A (Board A f) m) (d - 1)
                                     (- INFINITY) INFINITY (- 1))))"
  from m have x: "?x \<in> set results" by (simp add: results)
  from root_score_gt [OF pieces moves d, of f m] have gt: "- INFINITY < snd ?x" by simp
  from best_of_cases [of results None "- INFINITY"] show ?thesis
  proof
    assume "best_of results None (- INFINITY) = None \<and> (\<forall>x\<in>set results. snd x \<le> - INFINITY)"
    with x have "snd ?x \<le> - INFINITY" by blast
    with gt show ?thesis by simp
  next
    assume "\<exists>m s. best_of results None (- INFINITY) = Some m \<and> (m, s) \<in> set results
       \<and> - INFINITY < s \<and> (\<forall>x\<in>set results. snd x \<le> s)"
    then show ?thesis by blast
  qed
qed

text \<open>
  C2. For a position with a legal move and a depth \<open>\<ge> 1\<close> (on boards of at most 64
  pieces where a position that is not game over has a legal move), \<open>choose_best_move\<close>
  obtains one result per legal root move: the list of moves of the results is
  \<open>order_moves\<close> of the position, a permutation of its legal moves; the score of each is
  minus what \<open>negamax\<close> returns at depth \<open>max_depth - 1\<close>, full window and colour \<open>-1\<close> on
  the rebuilt board after the move; and the move returned is one of the results whose
  score is at least the score of every result.
\<close>

theorem scheduler_totality:
  assumes pieces: "\<forall>b. length (piece_map A b) \<le> 64"
    and moves: "\<forall>b. \<not> is_game_over A b \<longrightarrow> legal_moves A b \<noteq> []"
    and root: "legal_moves A board \<noteq> []"
    and d: "1 \<le> max_depth" "nat max_depth \<le> fuel"
  shows "\<exists>results best score.
      those (map (evaluate_move fuel A)
               (map (\<lambda>m. (m, fen A board, max_depth)) (order_moves A board))) = Some results
    \<and> map fst results = order_moves A board
    \<and> mset (map fst results) = mset (legal_moves A board)
    \<and> (\<forall>x\<in>set results. \<exists>b'. negamax fuel A (push A (Board A (fen A board)) (fst x))
                                  (max_depth - 1) (- INFINITY) INFINITY (- 1)
                                = Some (b', - snd x))
    \<and> choose_best_move fuel A board max_depth = Some (board, Some best)
    \<and> (best, score) \<in> set results
    \<and> (\<forall>x\<in>set results. snd x \<le> score)"
proof -
  define results where "results = map (\<lambda>m. (m, - snd (the (negamax fuel A
      (push A (Board A (fen A board)) m) (max_depth - 1) (- INFINITY) INFINITY (- 1)))))
    (order_moves A board)"
  have 1: "those (map (evaluate_move fuel A)
               (map (\<lambda>m. (m, fen A board, max_depth)) (order_moves A board))) = Some results"
    unfolding results_def by (rule root_results [OF d])
  have 2: "map fst results = order_moves A board"
    by (simp add: results_def comp_def)
  have 3: "mset (map fst results) = mset (legal_moves A board)"
    by (simp only: 2 mset_order_moves)
  have 4: "\<exists>b'. negamax fuel A (push A (Board A (fen A board)) (fst x))
                                  (max_depth - 1) (- INFINITY) INFINITY (- 1)
                                = Some (b', - snd x)" if "x \<in> set results" for x
  proof -
    from evaluate_move_Some [OF d, of A "fen A board" "fst x"] obtain b' r where
      r: "negamax fuel A (push A (Board A (fen A board)) (fst x)) (max_depth - 1)
            (- INFINITY) INFINITY (- 1) = Some (b', r)"
      by blast
    from that have "snd x = - snd (the (negamax fuel A (push A (Board A (fen A board)) (fst x))
        (max_depth - 1) (- INFINITY) INFINITY (- 1)))"
      by (auto simp: results_def)
    with r show ?thesis by simp
  qed
  from root have "set (legal_moves A board) \<noteq> {}" by simp
  then have ne: "order_moves A board \<noteq> []"
    by (simp only: set_order_moves [symmetric] set_empty not_False_eq_True)
  from root_best [OF pieces moves d ne results_def] obtain best score where
    b: "best_of results None (- INFINITY) = Some best" "(best, score) \<in> set results"
       "\<forall>x\<in>set results. snd x \<le> score"
    by blast
  have 5: "choose_best_move fuel A board max_depth = Some (board, Some best)"
    by (simp only: choose_best_move_eq [OF d] results_def [symmetric] b(1))
  from 1 2 3 4 5 b(2,3) show ?thesis by blast
qed

theorem scheduler_totality_witness:
  "\<exists>results best score.
      those (map (evaluate_move 3 toy)
               (map (\<lambda>m. (m, fen toy [], 3)) (order_moves toy []))) = Some results
    \<and> map fst results = order_moves toy []
    \<and> mset (map fst results) = mset (legal_moves toy [])
    \<and> (\<forall>x\<in>set results. \<exists>b'. negamax 3 toy (push toy (Board toy (fen toy [])) (fst x))
                                  (3 - 1) (- INFINITY) INFINITY (- 1)
                                = Some (b', - snd x))
    \<and> choose_best_move 3 toy [] 3 = Some ([], Some best)
    \<and> (best, score) \<in> set results
    \<and> (\<forall>x\<in>set results. snd x \<le> score)"
proof -
  have "legal_moves toy [] \<noteq> []" by code_simp
  then show ?thesis
    by (rule scheduler_totality [OF toy_pieces_bound toy_moves]) simp_all
qed

lemma toy_root_choice:
  "choose_best_move 3 toy [] 3 = Some ([], Some (mk_move 48 57 (Some QUEEN)))"
  by code_simp

text \<open>
  C4. For a depth \<open>\<ge> 1\<close> (same boards as for C2): on a position without legal moves
  \<open>choose_best_move\<close> returns normally with no move, and on a position with a legal move
  it returns one of the legal moves of that position, never no move.
\<close>

theorem no_move_iff_no_legal_move:
  assumes pieces: "\<forall>b. length (piece_map A b) \<le> 64"
    and moves: "\<forall>b. \<not> is_game_over A b \<longrightarrow> legal_moves A b \<noteq> []"
    and d: "1 \<le> max_depth" "nat max_depth \<le> fuel"
  shows "(legal_moves A board = [] \<longrightarrow>
            choose_best_move fuel A board max_depth = Some (board, None))
    \<and> (legal_moves A board \<noteq> [] \<longrightarrow>
          (\<exists>m\<in>set (legal_moves A board).
              choose_best_move fuel A board max_depth = Some (board, Some m)))"
proof (intro conjI impI)
  assume "legal_moves A board = []"
  then have "order_moves A board = []" by (simp add: order_moves_def)
  then show "choose_best_move fuel A board max_depth = Some (board, None)"
    by (simp add: choose_best_move_def)
next
  assume root: "legal_moves A board \<noteq> []"
  define results where "results = map (\<lambda>m. (m, - snd (the (negamax fuel A
      (push A (Board A (fen A board)) m) (max_depth - 1) (- INFINITY) INFINITY (- 1)))))
    (order_moves A board)"
  from root have "set (legal_moves A board) \<noteq> {}" by simp
  then have ne: "order_moves A board \<noteq> []"
    by (simp only: set_order_moves [symmetric] set_empty not_False_eq_True)
  from root_best [OF pieces moves d ne results_def] obtain best score where
    b: "best_of results None (- INFINITY) = Some best" "(best, score) \<in> set results"
    by blast
  from b(2) have "best \<in> set (order_moves A board)" by (auto simp: results_def)
  then have "best \<in> set (legal_moves A board)" by (simp add: set_order_moves)
  moreover have "choose_best_move fuel A board max_depth = Some (board, Some best)"
    by (simp only: choose_best_move_eq [OF d] results_def [symmetric] b(1))
  ultimately show "\<exists>m\<in>set (legal_moves A board).
      choose_best_move fuel A board max_depth = Some (board, Some m)"
    by blast
qed

lemma toy_end_no_moves:
  "legal_moves toy [mk_move 4 5 None, mk_move 60 52 None, mk_move 48 57 (Some QUEEN)] = []"
  by code_simp

theorem no_move_iff_no_legal_move_witness:
  "choose_best_move 3 toy [mk_move 4 5 None, mk_move 60 52 None, mk_move 48 57 (Some QUEEN)] 3
     = Some ([mk_move 4 5 None, mk_move 60 52 None, mk_move 48 57 (Some QUEEN)], None)
   \<and> (\<exists>m\<in>set (legal_moves toy []). choose_best_move 3 toy [] 3 = Some ([], Some m))"
proof -
  have "legal_moves toy [] \<noteq> []" by code_simp
  with no_move_iff_no_legal_move [OF toy_pieces_bound toy_moves, of 3 3 "[]"]
  have "\<exists>m\<in>set (legal_moves toy []). choose_best_move 3 toy [] 3 = Some ([], Some m)"
    by simp
  moreover from toy_end_no_moves
    no_move_iff_no_legal_move [OF toy_pieces_bound toy_moves, of 3 3
      "[mk_move 4 5 None, mk_move 60 52 None, mk_move 48 57 (Some QUEEN)]"]
  have "choose_best_move 3 toy [mk_move 4 5 None, mk_move 60 52 None, mk_move 48 57 (Some QUEEN)] 3
     = Some ([mk_move 4 5 None, mk_move 60 52 None, mk_move 48 57 (Some QUEEN)], None)"
    by simp
  ultimately show ?thesis by simp
qed

section \<open>Colour symmetry\<close>

text \<open>
  C3, as stated, fails: at depth 1 from the start of the small game, colour \<open>1\<close> scores
  the best reply for White (800) and colour \<open>-1\<close> the best for Black (500), and 800 is
  not \<open>-500\<close>.
\<close>

theorem negamax_symmetry_counterexample:
  "negamax 2 toy [] 1 (- INFINITY) INFINITY 1 = Some ([], 800)
   \<and> negamax 2 toy [] 1 (- INFINITY) INFINITY (- 1) = Some ([], 500)
   \<and> (800 :: int) \<noteq> - 500"
proof -
  have "negamax 2 toy [] 1 (- INFINITY) INFINITY 1 = Some ([], 800)" by code_simp
  moreover have "negamax 2 toy [] 1 (- INFINITY) INFINITY (- 1) = Some ([], 500)" by code_simp
  ultimately show ?thesis by simp
qed

text \<open>
  C3, amended. At depth 0 or on a position that is game over, the search with colour
  \<open>1\<close> returns the negation of the search with colour \<open>-1\<close>.
\<close>

theorem negamax_symmetry_at_leaves:
  assumes "depth = 0 \<or> is_game_over A pos"
  shows "\<exists>v. negamax (Suc fuel) A pos depth (- INFINITY) INFINITY 1 = Some (pos, v)
           \<and> negamax (Suc fuel) A pos depth (- INFINITY) INFINITY (- 1) = Some (pos, - v)"
  using assms by auto

theorem negamax_symmetry_at_leaves_witness:
  "\<exists>v. negamax (Suc 0) toy [mk_move 4 5 None, mk_move 60 52 None, mk_move 48 57 (Some QUEEN)] 2
            (- INFINITY) INFINITY 1
          = Some ([mk_move 4 5 None, mk_move 60 52 None, mk_move 48 57 (Some QUEEN)], v)
      \<and> negamax (Suc 0) toy [mk_move 4 5 None, mk_move 60 52 None, mk_move 48 57 (Some QUEEN)] 2
            (- INFINITY) INFINITY (- 1)
          = Some ([mk_move 4 5 None, mk_move 60 52 None, mk_move 48 57 (Some QUEEN)], - v)"
proof (rule negamax_symmetry_at_leaves)
  show "(2 :: int) = 0
    \<or> is_game_over toy [mk_move 4 5 None, mk_move 60 52 None, mk_move 48 57 (Some QUEEN)]"
    by (simp add: toy_def toy_legal_moves_def)
qed

section \<open>Negative depth\<close>

text \<open>
  C5, as stated, fails: called with depth \<open>-1\<close> on the start of the small game the search
  raises nothing, runs to the end of the game and returns a score.
\<close>

theorem negative_depth_counterexample:
  "negamax 4 toy [] (- 1) (- INFINITY) INFINITY 1 = Some ([], 900)"
  by code_simp

lemma negamax_loop_negative:
  assumes IH: "\<And>board d d' alpha beta colour. d < 0 \<Longrightarrow> d' < 0 \<Longrightarrow>
      negamax fuel A board d alpha beta colour = negamax fuel A board d' alpha beta colour"
    and neg: "depth < 0" "depth' < 0"
  shows "negamax_loop fuel A board depth ms max_eval alpha beta colour
       = negamax_loop fuel A board depth' ms max_eval alpha beta colour"
proof (induction ms arbitrary: board max_eval alpha)
  case Nil
  show ?case by simp
next
  case (Cons m rest)
  from neg have "depth - 1 < 0" "depth' - 1 < 0" by simp_all
  from IH [OF this]
  have "negamax fuel A (push A board m) (depth - 1) (- beta) (- alpha) (- colour)
      = negamax fuel A (push A board m) (depth' - 1) (- beta) (- alpha) (- colour)" .
  then have eq: "negamax fuel A (push A board m) (depth' - 1) (- beta) (- alpha) (- colour)
      = negamax fuel A (push A board m) (depth - 1) (- beta) (- alpha) (- colour)"
    by simp
  show ?case
  proof (cases "negamax fuel A (push A board m) (depth - 1) (- beta) (- alpha) (- colour)")
    case None
    from None eq show ?thesis
      by (simp only: negamax_loop_None)
  next
    case (Some res)
    obtain pushed cr where "res = (pushed, cr)" by (cases res)
    with Some eq
    have c: "negamax fuel A (push A board m) (depth - 1) (- beta) (- alpha) (- colour)
               = Some (pushed, cr)"
      and c': "negamax fuel A (push A board m) (depth' - 1) (- beta) (- alpha) (- colour)
               = Some (pushed, cr)"
      by simp_all
    show ?thesis
      by (simp only: negamax_loop_Cons [OF c] negamax_loop_Cons [OF c'] Cons.IH)
  qed
qed

lemma negamax_negative:
  "d < 0 \<Longrightarrow> d' < 0 \<Longrightarrow>
     negamax fuel A board d alpha beta colour = negamax fuel A board d' alpha beta colour"
proof (induction fuel arbitrary: board d d' alpha beta colour)
  case 0
  show ?case by simp
next
  case (Suc fuel)
  have "negamax_loop fuel A board d ms max_eval alpha beta colour
      = negamax_loop fuel A board d' ms max_eval alpha beta colour" for ms max_eval
    by (rule negamax_loop_negative [OF Suc.IH Suc.prems])
  with Suc.prems show ?case by simp
qed

text \<open>
  C5, amended. A negative depth is not checked. On a position that is game over the
  search returns \<open>colour * evaluate_board\<close>; otherwise it enters the loop over the ordered
  moves, the depth never reaching 0; and the outcome is the same for every negative
  depth.
\<close>

theorem negative_depth_unchecked:
  assumes "depth < 0"
  shows "(is_game_over A board \<longrightarrow>
            negamax (Suc fuel) A board depth alpha beta colour
              = Some (board, colour * evaluate_board A board))
    \<and> (\<not> is_game_over A board \<longrightarrow>
          negamax (Suc fuel) A board depth alpha beta colour
            = negamax_loop fuel A board depth (order_moves A board) (- INFINITY) alpha beta colour)
    \<and> (\<forall>depth'. depth' < 0 \<longrightarrow>
          negamax fuel A board depth' alpha beta colour
            = negamax fuel A board depth alpha beta colour)"
  using assms by (auto intro: negamax_negative)

theorem negative_depth_unchecked_witness:
  "negamax 4 toy [] (- 7) (- INFINITY) INFINITY 1 = negamax 4 toy [] (- 1) (- INFINITY) INFINITY 1
   \<and> negamax 4 toy [] (- 1) (- INFINITY) INFINITY 1 = Some ([], 900)"
proof -
  have "negamax 4 toy [] (- 1) (- INFINITY) INFINITY 1 = Some ([], 900)" by code_simp
  with negative_depth_unchecked [where depth = "- 1" and A = toy and board = "[]"
      and fuel = 4 and alpha = "- INFINITY" and beta = INFINITY and colour = 1]
  show ?thesis by simp
qed

end
